theory Spec2Isabelle
  imports Main
begin

unbundle bit_operations_syntax

section \<open>Python values and exceptions\<close>

text \<open>
  The module works on \<open>bytes\<close>, \<open>bytearray\<close> and lists of small integers. A byte string
  is modelled as a list of natural numbers; \<open>is_bytes\<close> is the invariant Python enforces
  on \<open>bytes\<close> and \<open>bytearray\<close> (every element is in \<open>range(256)\<close>). All integers of the
  module are non-negative, so \<open>nat\<close> stands for Python's \<open>int\<close>.

  The only exception the code can raise on byte strings is the \<open>IndexError\<close> of an
  out-of-range subscript. A computation that may raise returns \<open>error + 'a\<close>.
\<close>

datatype error = IndexError

definition is_bytes :: "nat list \<Rightarrow> bool" where
  "is_bytes xs = (\<forall>x \<in> set xs. x < 256)"

text \<open>A block is a byte string of exactly 16 bytes.\<close>

definition is_block :: "nat list \<Rightarrow> bool" where
  "is_block xs = (length xs = 16 \<and> is_bytes xs)"

definition ebind :: "error + 'a \<Rightarrow> ('a \<Rightarrow> error + 'b) \<Rightarrow> error + 'b" where
  "ebind m f = (case m of Inl e \<Rightarrow> Inl e | Inr x \<Rightarrow> f x)"

text \<open>\<open>xs[i]\<close> and \<open>xs[i] = v\<close> with a non-negative index.\<close>

definition getitem :: "'a list \<Rightarrow> nat \<Rightarrow> error + 'a" where
  "getitem xs i = (if i < length xs then Inr (xs ! i) else Inl IndexError)"

definition setitem :: "'a list \<Rightarrow> nat \<Rightarrow> 'a \<Rightarrow> error + 'a list" where
  "setitem xs i v = (if i < length xs then Inr (xs[i := v]) else Inl IndexError)"

text \<open>\<open>for i in <indices>: s = body(i, s)\<close>, stopping at the first exception.\<close>

fun for_loop :: "nat list \<Rightarrow> (nat \<Rightarrow> 's \<Rightarrow> error + 's) \<Rightarrow> 's \<Rightarrow> error + 's" where
  "for_loop [] body s = Inr s"
| "for_loop (i # js) body s = ebind (body i s) (for_loop js body)"

text \<open>The list comprehension \<open>[f(v) for v in xs]\<close>.\<close>

fun comprehension :: "('a \<Rightarrow> error + 'b) \<Rightarrow> 'a list \<Rightarrow> error + 'b list" where
  "comprehension f [] = Inr []"
| "comprehension f (x # xs) =
     ebind (f x) (\<lambda>y. ebind (comprehension f xs) (\<lambda>ys. Inr (y # ys)))"

text \<open>
  Modelled from the spec: \<open>utils.strxor\<close> is imported by \<open>gost3412.py\<close> but its source is
  not among the files. The spec describes it as the XOR of two blocks (``\<open>block XOR
  roundkey[i]\<close>''); it is taken bytewise over the common length of its operands, which for
  operands of equal length is the bytewise XOR of the spec.
\<close>

definition strxor :: "nat list \<Rightarrow> nat list \<Rightarrow> nat list" where
  "strxor a b = map (\<lambda>(x, y). x XOR y) (zip a b)"

section \<open>Module constants\<close>

definition KEYSIZE :: nat where
  "KEYSIZE = 32"

definition LC :: "nat list" where
  "LC = [148, 32, 133, 16, 194, 192, 1, 251, 1, 192, 194, 16, 133, 32, 148, 1]"

definition PI :: "nat list" where
  "PI = [
     159, 22, 243, 168, 16, 239, 32, 153, 130, 191, 125, 220, 228, 81, 154, 143,
     10, 223, 175, 253, 195, 103, 188, 189, 198, 238, 222, 240, 185, 54, 99, 47,
     23, 172, 72, 53, 124, 24, 139, 67, 249, 161, 4, 149, 41, 186, 250, 132,
     133, 0, 44, 51, 57, 66, 234, 200, 2, 28, 212, 187, 117, 129, 193, 237,
     148, 226, 227, 242, 108, 76, 120, 146, 165, 119, 210, 169, 70, 213, 111, 21,
     33, 151, 174, 26, 182, 235, 199, 95, 89, 74, 90, 17, 34, 138, 192, 8,
     64, 141, 49, 155, 93, 39, 109, 65, 203, 206, 236, 255, 233, 104, 82, 83,
     163, 171, 25, 245, 118, 135, 216, 101, 27, 102, 183, 68, 29, 246, 142, 43,
     75, 19, 136, 80, 121, 116, 40, 181, 252, 5, 14, 42, 224, 115, 251, 209,
     218, 3, 58, 244, 127, 15, 112, 180, 6, 221, 97, 1, 140, 211, 229, 46,
     107, 122, 69, 254, 96, 110, 37, 184, 55, 7, 62, 123, 170, 232, 150, 147,
     92, 128, 114, 77, 71, 166, 167, 207, 173, 164, 126, 177, 78, 79, 247, 157,
     30, 196, 131, 225, 52, 219, 63, 156, 85, 137, 179, 241, 215, 87, 231, 214,
     50, 35, 208, 134, 202, 31, 105, 11, 60, 84, 12, 100, 88, 197, 205, 36,
     152, 144, 94, 18, 91, 178, 145, 106, 61, 217, 190, 86, 201, 48, 59, 13,
     248, 73, 160, 113, 9, 20, 158, 230, 56, 38, 204, 45, 194, 176, 98, 162]"

text \<open>
  \<open>PIinv = bytearray(256); for x in xrange(256): PIinv[PI[x]] = x\<close>. Every \<open>PI[x]\<close> is
  below 256, so the store is in range.
\<close>

definition PIinv :: "nat list" where
  "PIinv = fold (\<lambda>x t. t[PI ! x := x]) [0..<256] (replicate 256 0)"

section \<open>The field multiplier\<close>

text \<open>
  \<open>gf(a, b)\<close>: the \<open>while b:\<close> loop with its three variables. It ends because \<open>b >>= 1\<close>
  makes a positive \<open>b\<close> smaller.
\<close>

function gf_loop :: "nat \<Rightarrow> nat \<Rightarrow> nat \<Rightarrow> nat" where
  "gf_loop a b c =
     (if b = 0 then c
      else gf_loop (if a AND 0x80 \<noteq> 0 then push_bit 1 a XOR 0x1C3 else push_bit 1 a)
                   (drop_bit 1 b)
                   (if b AND 1 \<noteq> 0 then c XOR a else c))"
  by pat_completeness auto
termination
  by (relation "measure (\<lambda>(a, b, c). b)") (auto simp: drop_bit_eq_div)

declare gf_loop.simps [simp del]

definition gf :: "nat \<Rightarrow> nat \<Rightarrow> nat" where
  "gf a b = gf_loop a b 0"

text \<open>The update of \<open>a\<close> in one pass of the loop, named for the proofs below.\<close>

definition xtime :: "nat \<Rightarrow> nat" where
  "xtime a = (if a AND 0x80 \<noteq> 0 then push_bit 1 a XOR 0x1C3 else push_bit 1 a)"

text \<open>
  \<open>GF = [bytearray(256) for _ in xrange(256)]\<close>, then \<open>GF[x][y] = gf(x, y)\<close> for all
  \<open>x\<close>, \<open>y\<close> in \<open>xrange(256)\<close>. The rows are distinct objects, so the table is a list of
  lists. The values stored are bytes (lemma \<open>gf_less_256\<close> below), as a \<open>bytearray\<close>
  requires.
\<close>

definition GF :: "nat list list" where
  "GF = fold (\<lambda>x tbl. fold (\<lambda>y tbl'. tbl'[x := (tbl' ! x)[y := gf x y]]) [0..<256] tbl)
          [0..<256] (replicate 256 (replicate 256 0))"

section \<open>The linear transform\<close>

text \<open>
  One pass of the inner loop of \<open>L\<close>, \<open>blk[i + 1] = blk[i]; t ^= GF[blk[i]][LC[i]]\<close>, on
  the pair of the block and \<open>t\<close>.
\<close>

definition L_body :: "nat \<Rightarrow> nat list \<times> nat \<Rightarrow> error + nat list \<times> nat" where
  "L_body i s = (case s of (blk, t) \<Rightarrow>
     ebind (getitem blk i) (\<lambda>v.
     ebind (setitem blk (i + 1) v) (\<lambda>blk'.
     ebind (getitem blk' i) (\<lambda>w.
     ebind (getitem GF w) (\<lambda>row.
     ebind (getitem LC i) (\<lambda>c.
     ebind (getitem row c) (\<lambda>g. Inr (blk', t XOR g))))))))"

text \<open>One pass of the outer loop: \<open>range(14, -1, -1)\<close> is \<open>14, 13, ..., 0\<close>.\<close>

definition L_round :: "nat list \<Rightarrow> error + nat list" where
  "L_round blk =
     ebind (getitem blk 15) (\<lambda>t.
     ebind (for_loop (rev [0..<15]) L_body (blk, t)) (\<lambda>(blk', t'). setitem blk' 0 t'))"

definition L :: "nat list \<Rightarrow> nat \<Rightarrow> error + nat list" where
  "L blk rounds = for_loop [0..<rounds] (\<lambda>_. L_round) blk"

text \<open>The default of the parameter \<open>rounds\<close>, taken by every call in the module.\<close>

definition L_default_rounds :: nat where
  "L_default_rounds = 16"

text \<open>\<open>Linv\<close>: \<open>blk[i] = blk[i + 1]; t ^= GF[blk[i]][LC[i]]\<close> for \<open>i\<close> in \<open>range(15)\<close>.\<close>

definition Linv_body :: "nat \<Rightarrow> nat list \<times> nat \<Rightarrow> error + nat list \<times> nat" where
  "Linv_body i s = (case s of (blk, t) \<Rightarrow>
     ebind (getitem blk (i + 1)) (\<lambda>v.
     ebind (setitem blk i v) (\<lambda>blk'.
     ebind (getitem blk' i) (\<lambda>w.
     ebind (getitem GF w) (\<lambda>row.
     ebind (getitem LC i) (\<lambda>c.
     ebind (getitem row c) (\<lambda>g. Inr (blk', t XOR g))))))))"

definition Linv_round :: "nat list \<Rightarrow> error + nat list" where
  "Linv_round blk =
     ebind (getitem blk 0) (\<lambda>t.
     ebind (for_loop [0..<15] Linv_body (blk, t)) (\<lambda>(blk', t'). setitem blk' 15 t'))"

definition Linv :: "nat list \<Rightarrow> error + nat list" where
  "Linv blk = for_loop [0..<16] (\<lambda>_. Linv_round) blk"

section \<open>Round constants\<close>

text \<open>
  \<open>for x in range(1, 33): y = bytearray(16); y[15] = x; C.append(L(y))\<close>. The loop runs
  when the module is imported; \<open>C_init\<close> is its outcome and \<open>C\<close> the list it leaves
  (lemma \<open>C_init_ok\<close> shows that it does not raise).
\<close>

definition C_init :: "error + nat list list" where
  "C_init = for_loop [1..<33]
     (\<lambda>x cs. ebind (setitem (replicate 16 0) 15 x) (\<lambda>y.
              ebind (L y L_default_rounds) (\<lambda>b. Inr (cs @ [b])))) []"

definition C :: "nat list list" where
  "C = (case C_init of Inr cs \<Rightarrow> cs | Inl e \<Rightarrow> [])"

definition lp :: "nat list \<Rightarrow> error + nat list" where
  "lp blk = ebind (comprehension (getitem PI) blk) (\<lambda>s. L s L_default_rounds)"

section \<open>The cipher object\<close>

record GOST3412Kuznechik =
  ks :: "nat list list"

definition blocksize :: nat where
  "blocksize = 16"

text \<open>
  The body of the inner loop of \<open>__init__\<close>:
  \<open>k = lp(bytearray(strxor(C[8 * i + j], kr0))); kr0, kr1 = [strxor(k, kr1), kr0]\<close>.
\<close>

definition schedule_body :: "nat \<Rightarrow> nat \<Rightarrow> nat list \<times> nat list \<Rightarrow> error + nat list \<times> nat list" where
  "schedule_body i j s = (case s of (kr0, kr1) \<Rightarrow>
     ebind (getitem C (8 * i + j)) (\<lambda>c.
     ebind (lp (strxor c kr0)) (\<lambda>k. Inr (strxor k kr1, kr0))))"

text \<open>
  The body of the outer loop, on the triple of \<open>kr0\<close>, \<open>kr1\<close> and \<open>self.ks\<close>: eight inner
  passes, then the two \<open>append\<close>s.
\<close>

definition schedule_group ::
  "nat \<Rightarrow> nat list \<times> nat list \<times> nat list list \<Rightarrow> error + nat list \<times> nat list \<times> nat list list" where
  "schedule_group i s = (case s of (kr0, kr1, rks) \<Rightarrow>
     ebind (for_loop [0..<8] (schedule_body i) (kr0, kr1)) (\<lambda>(kr0', kr1').
       Inr (kr0', kr1', (rks @ [kr0']) @ [kr1'])))"

text \<open>\<open>GOST3412Kuznechik(key)\<close>: \<open>key[:16]\<close> is \<open>take 16 key\<close>, \<open>key[16:]\<close> is \<open>drop 16 key\<close>.\<close>

definition GOST3412Kuznechik_init :: "nat list \<Rightarrow> error + GOST3412Kuznechik" where
  "GOST3412Kuznechik_init key =
     (let kr0 = take 16 key; kr1 = drop 16 key in
      ebind (for_loop [0..<4] schedule_group (kr0, kr1, [kr0, kr1])) (\<lambda>(kr0', kr1', rks).
        Inr \<lparr>ks = rks\<rparr>))"

definition encrypt :: "GOST3412Kuznechik \<Rightarrow> nat list \<Rightarrow> error + nat list" where
  "encrypt self blk =
     ebind (for_loop [0..<9]
              (\<lambda>i b. ebind (getitem (ks self) i) (\<lambda>k. lp (strxor k b))) blk) (\<lambda>b.
     ebind (getitem (ks self) 9) (\<lambda>k. Inr (strxor k b)))"

text \<open>\<open>range(9, 0, -1)\<close> is \<open>9, 8, ..., 1\<close>.\<close>

definition decrypt :: "GOST3412Kuznechik \<Rightarrow> nat list \<Rightarrow> error + nat list" where
  "decrypt self blk =
     ebind (for_loop (rev [1..<10])
              (\<lambda>i b. ebind (getitem (ks self) i) (\<lambda>k.
                     ebind (Linv (strxor k b)) (comprehension (getitem PIinv)))) blk) (\<lambda>b.
     ebind (getitem (ks self) 0) (\<lambda>k. Inr (strxor k b)))"

section \<open>The design as the specification words it\<close>

text \<open>
  Pure functions that follow the wording of the specification; the lemmas below compare
  them with the definitions taken from the code. They are meant for blocks of 16 bytes.

  Section 4.3: \<open>t = state[15] XOR (multiply(state[0], LC[0]) XOR ... XOR
  multiply(state[14], LC[14]))\<close>; shift the state right by one position; set
  \<open>state[0] := t\<close>.
\<close>

definition spec_lin_sum :: "nat list \<Rightarrow> nat" where
  "spec_lin_sum st = foldr (XOR) (map (\<lambda>i. gf (st ! i) (LC ! i)) [0..<15]) 0"

definition spec_L_step :: "nat list \<Rightarrow> nat list" where
  "spec_L_step st = (st ! 15 XOR spec_lin_sum st) # take 15 st"

text \<open>
  The inverse step: save \<open>t := state[0]\<close>; shift the state left by one; recompute the
  multiply-sum on the shifted bytes and XOR it with \<open>t\<close>; place the result into
  \<open>state[15]\<close>.
\<close>

definition spec_Linv_step :: "nat list \<Rightarrow> nat list" where
  "spec_Linv_step st = drop 1 st @ [st ! 0 XOR spec_lin_sum (drop 1 st)]"

text \<open>The full transforms are the elementary steps applied 16 times.\<close>

definition spec_L :: "nat list \<Rightarrow> nat list" where
  "spec_L st = (spec_L_step ^^ 16) st"

definition spec_Linv :: "nat list \<Rightarrow> nat list" where
  "spec_Linv st = (spec_Linv_step ^^ 16) st"

text \<open>\<open>LP(block)\<close>: the forward table on every byte, then the full linear transform.\<close>

definition spec_LP :: "nat list \<Rightarrow> nat list" where
  "spec_LP blk = spec_L (map (\<lambda>v. PI ! v) blk)"

text \<open>
  Section 4.4: \<open>C[r]\<close> is the full linear transform of the block that is all-zero except
  for its last byte, set to \<open>r\<close>.
\<close>

definition spec_round_const :: "nat \<Rightarrow> nat list" where
  "spec_round_const r = spec_L (replicate 15 0 @ [r])"

text \<open>
  Section 4.5: round \<open>r\<close> is \<open>(left, right) := (LP(left XOR C[r]) XOR right, left)\<close>;
  \<open>spec_feistel_state n\<close> is the pair after rounds \<open>1, ..., n\<close>. The round keys are the two
  halves of the key and the pairs after rounds 8, 16, 24 and 32.
\<close>

definition spec_feistel_round :: "nat \<Rightarrow> nat list \<times> nat list \<Rightarrow> nat list \<times> nat list" where
  "spec_feistel_round r s =
     (case s of (left, right) \<Rightarrow> (strxor (spec_LP (strxor left (spec_round_const r))) right, left))"

primrec spec_feistel_state :: "nat \<Rightarrow> nat list \<times> nat list \<Rightarrow> nat list \<times> nat list" where
  "spec_feistel_state 0 s = s"
| "spec_feistel_state (Suc n) s = spec_feistel_round (Suc n) (spec_feistel_state n s)"

definition spec_round_keys :: "nat list \<Rightarrow> nat list list" where
  "spec_round_keys key =
     (let s = (take 16 key, drop 16 key) in
      [fst s, snd s,
       fst (spec_feistel_state 8 s), snd (spec_feistel_state 8 s),
       fst (spec_feistel_state 16 s), snd (spec_feistel_state 16 s),
       fst (spec_feistel_state 24 s), snd (spec_feistel_state 24 s),
       fst (spec_feistel_state 32 s), snd (spec_feistel_state 32 s)])"

text \<open>
  Section 4.6, Encrypt: for \<open>i = 0..8\<close>, \<open>block := LP(block XOR roundkey[i])\<close>; return
  \<open>block XOR roundkey[9]\<close>.
\<close>

definition spec_encrypt :: "nat list list \<Rightarrow> nat list \<Rightarrow> nat list" where
  "spec_encrypt rks blk =
     strxor (fold (\<lambda>i b. spec_LP (strxor b (rks ! i))) [0..<9] blk) (rks ! 9)"

text \<open>
  The value \<open>decrypt\<close> computes when no subscript is out of range (lemma
  \<open>decrypt_eq\<close>), written from the code as a pure function.
\<close>

definition decrypt_rounds :: "nat list list \<Rightarrow> nat list \<Rightarrow> nat list" where
  "decrypt_rounds rks blk =
     strxor (rks ! 0)
       (fold (\<lambda>i b. map (\<lambda>v. PIinv ! v) (spec_Linv (strxor (rks ! i) b))) (rev [1..<10]) blk)"

section \<open>Bytes\<close>

lemma xor_byte: "a < 256 \<Longrightarrow> b < 256 \<Longrightarrow> a XOR b < (256::nat)"
proof -
  assume "a < 256" "b < 256"
  then have "take_bit 8 a = a" "take_bit 8 b = b"
    by (simp_all add: take_bit_nat_eq_self_iff)
  then have "a XOR b = take_bit 8 (a XOR b)" by simp
  then have "a XOR b < 2 ^ 8" by (metis take_bit_nat_less_exp)
  then show ?thesis by simp
qed

lemma row_fill_length: "length (fold (\<lambda>y r. r[y := f y]) [0..<n] r) = length r"
  by (induction n) simp_all

lemma row_fill_nth:
  "j < length r \<Longrightarrow> fold (\<lambda>y r. r[y := f y]) [0..<n] r ! j = (if j < n then f j else r ! j)"
  by (induction n) (auto simp: row_fill_length nth_list_update less_Suc_eq)

lemma tbl_fill_row:
  "x < length tbl \<Longrightarrow>
   fold (\<lambda>y t. t[x := (t ! x)[y := f y]]) [0..<n] tbl =
   tbl[x := fold (\<lambda>y r. r[y := f y]) [0..<n] (tbl ! x)]"
  by (induction n) simp_all

lemma tbl_fill_length:
  "length (fold (\<lambda>x tbl. fold (\<lambda>y t. t[x := (t ! x)[y := f x y]]) [0..<n] tbl) [0..<m] tbl) = length tbl"
proof (induction m)
  case 0
  then show ?case by simp
next
  case (Suc m)
  show ?case
  proof (cases "m < length tbl")
    case True
    then show ?thesis using Suc by (simp add: tbl_fill_row)
  next
    case False
    have "length (fold (\<lambda>y t. t[m := (t ! m)[y := f m y]]) [0..<n] t) = length t" for t
      by (induction n) simp_all
    then show ?thesis using Suc by simp
  qed
qed

lemma tbl_fill_nth:
  "m \<le> length tbl \<Longrightarrow> i < length tbl \<Longrightarrow>
   fold (\<lambda>x tbl. fold (\<lambda>y t. t[x := (t ! x)[y := f x y]]) [0..<n] tbl) [0..<m] tbl ! i =
   (if i < m then fold (\<lambda>y r. r[y := f i y]) [0..<n] (tbl ! i) else tbl ! i)"
proof (induction m arbitrary: i)
  case 0
  then show ?case by simp
next
  case (Suc m)
  then have m: "m < length tbl" by simp
  let ?t = "fold (\<lambda>x tbl. fold (\<lambda>y t. t[x := (t ! x)[y := f x y]]) [0..<n] tbl) [0..<m] tbl"
  have len: "length ?t = length tbl" by (rule tbl_fill_length)
  have IH: "?t ! j = (if j < m then fold (\<lambda>y r. r[y := f j y]) [0..<n] (tbl ! j) else tbl ! j)"
    if "j < length tbl" for j
    using Suc.IH [of j] m that by simp
  have "fold (\<lambda>x tbl. fold (\<lambda>y t. t[x := (t ! x)[y := f x y]]) [0..<n] tbl) [0..<Suc m] tbl
        = ?t[m := fold (\<lambda>y r. r[y := f m y]) [0..<n] (?t ! m)]"
    using m len by (simp add: tbl_fill_row)
  then show ?case
    using m len Suc.prems IH [of i] IH [of m] by (auto simp: nth_list_update less_Suc_eq)
qed

lemma GF_length: "length GF = 256"
  unfolding GF_def by (simp only: tbl_fill_length length_replicate)

lemma GF_row: "x < 256 \<Longrightarrow> GF ! x = fold (\<lambda>y r. r[y := gf x y]) [0..<256] (replicate 256 0)"
  unfolding GF_def by (subst tbl_fill_nth) (simp_all only: length_replicate nth_replicate if_True order_refl)

lemma GF_row_length: "x < 256 \<Longrightarrow> length (GF ! x) = 256"
  by (simp only: GF_row row_fill_length length_replicate)

lemma GF_nth: "x < 256 \<Longrightarrow> y < 256 \<Longrightarrow> GF ! x ! y = gf x y"
  by (simp only: GF_row) (subst row_fill_nth, simp_all only: length_replicate if_True)

lemma and_128_iff: "(a AND 0x80 \<noteq> 0) = bit a 7" for a :: nat
  using bit_iff_and_push_bit_not_eq_0 [of a 7] by simp

lemma and_1_iff: "(b AND 1 \<noteq> 0) = odd b" for b :: nat
  by (simp add: and_one_eq mod_2_eq_odd)

lemma gf_loop_unfold:
  "gf_loop a b c = (if b = 0 then c else gf_loop (xtime a) (b div 2) (if odd b then c XOR a else c))"
  by (subst gf_loop.simps) (simp only: xtime_def and_1_iff drop_bit_eq_div power_one_right)

lemma gf_loop_acc: "gf_loop a b c = c XOR gf_loop a b 0"
proof (induction b arbitrary: a c rule: less_induct)
  case (less b)
  show ?case
  proof (cases "b = 0")
    case True
    then show ?thesis by (simp add: gf_loop_unfold)
  next
    case False
    then have "b div 2 < b" by simp
    then have step: "gf_loop (xtime a) (b div 2) d = d XOR gf_loop (xtime a) (b div 2) 0" for d
      by (rule less.IH)
    show ?thesis
      using False step [of "c XOR a"] step [of c] step [of a]
      by (subst (1 2) gf_loop_unfold) (simp add: xor.assoc)
  qed
qed

lemma gf_0_right: "gf a 0 = 0"
  by (simp add: gf_def gf_loop_unfold)

lemma gf_rec: "b \<noteq> 0 \<Longrightarrow> gf a b = (if odd b then a else 0) XOR gf (xtime a) (b div 2)"
  unfolding gf_def
  by (subst gf_loop_unfold, subst gf_loop_acc) simp

lemma gf_1_right: "gf a 1 = a"
  by (simp add: gf_rec gf_0_right)

lemma xtime_0: "xtime 0 = 0"
  by (simp add: xtime_def)

lemma xor_cancel: "x XOR (x XOR y) = y" for x :: nat
  by (simp flip: xor.assoc)

lemma xtime_xor: "xtime (a XOR b) = xtime a XOR xtime b"
proof -
  have c: "((a XOR b) AND 0x80 \<noteq> 0) = ((a AND 0x80 \<noteq> 0) \<noteq> (b AND 0x80 \<noteq> 0))"
    by (simp only: and_128_iff bit_xor_iff)
  show ?thesis
    unfolding xtime_def c
    by (cases "a AND 0x80 \<noteq> 0"; cases "b AND 0x80 \<noteq> 0")
       (simp_all add: xor.assoc xor.commute xor.left_commute xor_cancel)
qed

lemma xtime_less: "a < 256 \<Longrightarrow> xtime a < 256"
proof (cases "a AND 0x80 \<noteq> 0")
  case False
  assume "a < 256"
  from False have "\<not> bit a 7" using and_128_iff [of a] by blast
  then have "even (a div 128)" by (simp add: bit_iff_odd)
  moreover have "a div 128 = 0 \<or> a div 128 = 1" using \<open>a < 256\<close> by arith
  ultimately have "a div 128 = 0" by auto
  then have "a < 128" by arith
  with False show ?thesis by (simp add: xtime_def)
next
  case True
  assume "a < 256"
  from True have "bit a 7" using and_128_iff [of a] by blast
  then have "odd (a div 128)" by (simp add: bit_iff_odd)
  moreover have "a div 128 = 0 \<or> a div 128 = 1" using \<open>a < 256\<close> by arith
  ultimately have "a div 128 = 1" by auto
  have "(a * 2) div 256 = a div 128" by arith
  then have "drop_bit 8 (push_bit 1 a) = 1"
    using \<open>a div 128 = 1\<close> by (simp add: drop_bit_eq_div)
  moreover have "drop_bit 8 (0x1C3 :: nat) = 1" by (simp add: drop_bit_eq_div)
  moreover have "drop_bit 8 (push_bit 1 a XOR 0x1C3) = drop_bit 8 (push_bit 1 a) XOR drop_bit 8 (0x1C3 :: nat)"
    by (rule drop_bit_xor)
  ultimately have "drop_bit 8 (push_bit 1 a XOR 0x1C3) = 0" by simp
  then have "(push_bit 1 a XOR 0x1C3) div 256 = 0" by (simp add: drop_bit_eq_div)
  then have "push_bit 1 a XOR 0x1C3 < 256" by (simp add: div_eq_0_iff)
  with True show ?thesis by (simp add: xtime_def)
qed

lemma gf_loop_less: "a < 256 \<Longrightarrow> c < 256 \<Longrightarrow> gf_loop a b c < 256"
proof (induction b arbitrary: a c rule: less_induct)
  case (less b)
  show ?case
  proof (cases "b = 0")
    case True
    then show ?thesis using less.prems by (simp add: gf_loop_unfold)
  next
    case False
    then have "b div 2 < b" by simp
    then show ?thesis
      using False less.prems
      by (subst gf_loop_unfold) (simp add: less.IH xtime_less xor_byte)
  qed
qed

lemma gf_less_256: "a < 256 \<Longrightarrow> gf a b < 256"
  by (simp add: gf_def gf_loop_less)

lemma gf_0_left: "gf 0 b = 0"
proof (induction b rule: less_induct)
  case (less b)
  show ?case
  proof (cases "b = 0")
    case True
    then show ?thesis by (simp add: gf_0_right)
  next
    case False
    then have "b div 2 < b" by simp
    then show ?thesis using False by (simp add: gf_rec xtime_0 less.IH)
  qed
qed

lemma gf_xor_left: "gf (a XOR a') b = gf a b XOR gf a' b"
proof (induction b arbitrary: a a' rule: less_induct)
  case (less b)
  show ?case
  proof (cases "b = 0")
    case True
    then show ?thesis by (simp add: gf_0_right)
  next
    case False
    then have "b div 2 < b" by simp
    then show ?thesis using False
      by (simp add: gf_rec xtime_xor less.IH xor.assoc xor.left_commute)
  qed
qed

lemma gf_xtime: "gf (xtime a) b = xtime (gf a b)"
proof (induction b arbitrary: a rule: less_induct)
  case (less b)
  show ?case
  proof (cases "b = 0")
    case True
    then show ?thesis by (simp add: gf_0_right xtime_0)
  next
    case False
    then have "b div 2 < b" by simp
    then show ?thesis using False
      by (simp add: gf_rec [of b] xtime_xor less.IH xtime_0)
  qed
qed

lemma nat_split_bit: "a = (if odd a then 1 else 0) XOR push_bit 1 (a div 2)" for a :: nat
proof (cases "odd a")
  case True
  have "1 XOR 2 * (a div 2) = 2 * (a div 2) + 1"
    using one_xor_eq [of "2 * (a div 2)"] by simp
  also have "\<dots> = a" using True by simp
  finally show ?thesis using True by (simp add: push_bit_eq_mult mult.commute)
next
  case False
  then show ?thesis by (simp add: push_bit_eq_mult)
qed

lemma push_bit_split:
  "push_bit k b = (if odd b then 2 ^ k else 0) XOR push_bit (Suc k) (b div 2)" for b :: nat
proof -
  have "push_bit k b = push_bit k ((if odd b then 1 else 0) XOR push_bit 1 (b div 2))"
    using nat_split_bit [of b] by simp
  also have "\<dots> = push_bit k (if odd b then 1 else 0) XOR push_bit k (push_bit 1 (b div 2))"
    by (rule push_bit_xor)
  also have "\<dots> = (if odd b then 2 ^ k else 0) XOR push_bit (Suc k) (b div 2)"
    by (simp add: push_bit_eq_mult mult.assoc)
  finally show ?thesis .
qed

lemma gf_pow2: "k \<le> 7 \<Longrightarrow> b < 2 ^ (8 - k) \<Longrightarrow> gf (2 ^ k) b = push_bit k b"
proof (induction b arbitrary: k rule: less_induct)
  case (less b)
  show ?case
  proof (cases "b = 0")
    case True
    then show ?thesis by (simp add: gf_0_right)
  next
    case False
    then have lt: "b div 2 < b" by simp
    show ?thesis
    proof (cases "k = 7")
      case True
      with less.prems False have "b = 1" by simp
      then show ?thesis using True by (simp add: gf_rec gf_0_right)
    next
      case k: False
      with less.prems have k6: "k \<le> 6" by simp
      then have "\<not> bit ((2::nat) ^ k) 7" by (simp add: bit_exp_iff)
      then have xt: "xtime (2 ^ k) = 2 ^ Suc k"
        using and_128_iff [of "2 ^ k"] by (simp add: xtime_def)
      have "8 - k = Suc (8 - Suc k)" using k6 by simp
      then have "(2::nat) ^ (8 - k) = 2 * 2 ^ (8 - Suc k)" by (simp only: power_Suc)
      with less.prems have "b div 2 < 2 ^ (8 - Suc k)" by simp
      then have IH: "gf (2 ^ Suc k) (b div 2) = push_bit (Suc k) (b div 2)"
        using less.IH [OF lt, of "Suc k"] k6 by simp
      have "gf (2 ^ k) b = (if odd b then 2 ^ k else 0) XOR gf (xtime (2 ^ k)) (b div 2)"
        using False by (rule gf_rec)
      also have "\<dots> = (if odd b then 2 ^ k else 0) XOR push_bit (Suc k) (b div 2)"
        by (simp only: xt IH)
      also have "\<dots> = push_bit k b" by (rule push_bit_split [symmetric])
      finally show ?thesis .
    qed
  qed
qed

lemma gf_1_left: "b < 256 \<Longrightarrow> gf 1 b = b"
  using gf_pow2 [of 0 b] by simp

lemma gf_expand_left:
  assumes "a < 256" "b < 256"
  shows "gf a b = (if odd a then b else 0) XOR xtime (gf (a div 2) b)"
proof -
  have "a div 2 < 128" using assms by simp
  then have "(a div 2) div 128 = 0" by simp
  then have "\<not> bit (a div 2) 7" by (simp add: bit_iff_odd)
  then have xt: "xtime (a div 2) = push_bit 1 (a div 2)"
    using and_128_iff [of "a div 2"] by (simp add: xtime_def)
  have "gf a b = gf ((if odd a then 1 else 0) XOR push_bit 1 (a div 2)) b"
    using nat_split_bit [of a] by simp
  also have "\<dots> = gf (if odd a then 1 else 0) b XOR gf (xtime (a div 2)) b"
    by (simp only: gf_xor_left xt)
  also have "\<dots> = (if odd a then b else 0) XOR xtime (gf (a div 2) b)"
    using assms by (simp only: gf_xtime) (simp only: gf_1_left gf_0_left if_distrib [of "\<lambda>x. gf x b"])
  finally show ?thesis .
qed

lemma gf_commute: "a < 256 \<Longrightarrow> b < 256 \<Longrightarrow> gf a b = gf b a"
proof (induction a rule: less_induct)
  case (less a)
  show ?case
  proof (cases "a = 0")
    case True
    then show ?thesis by (simp add: gf_0_left gf_0_right)
  next
    case False
    then have "a div 2 < a" by simp
    moreover have "a div 2 < 256" using less.prems by simp
    ultimately have IH: "gf (a div 2) b = gf b (a div 2)" using less.IH less.prems by simp
    have "gf a b = (if odd a then b else 0) XOR xtime (gf (a div 2) b)"
      using less.prems by (rule gf_expand_left)
    also have "\<dots> = (if odd a then b else 0) XOR gf (xtime b) (a div 2)"
      by (simp only: IH gf_xtime)
    also have "\<dots> = gf b a" using False by (rule gf_rec [symmetric])
    finally show ?thesis .
  qed
qed

lemma ebind_Inr [simp]: "ebind (Inr x) f = f x"
  by (simp add: ebind_def)

lemma ebind_Inl [simp]: "ebind (Inl e) f = Inl e"
  by (simp add: ebind_def)

lemma gf_Suc_0_right: "gf a (Suc 0) = a"
  using gf_1_right [of a] by simp

lemma upt_0_15: "[0..<15] = [0, 1, 2, 3, 4, 5, 6, 7, 8, 9, 10, 11, 12, 13, 14]"
  by (simp add: upt_rec)

lemma length_16_cases:
  assumes "length xs = 16"
  obtains b0 b1 b2 b3 b4 b5 b6 b7 b8 b9 b10 b11 b12 b13 b14 b15
  where "xs = [b0, b1, b2, b3, b4, b5, b6, b7, b8, b9, b10, b11, b12, b13, b14, b15]"
proof -
  have "length xs = Suc (Suc (Suc (Suc (Suc (Suc (Suc (Suc (Suc (Suc (Suc (Suc (Suc (Suc (Suc (Suc 0)))))))))))))))"
    using assms by simp
  then show ?thesis
    by (auto simp only: length_Suc_conv length_0_conv intro: that)
qed

lemma spec_L_step_explicit:
  "spec_L_step [b0, b1, b2, b3, b4, b5, b6, b7, b8, b9, b10, b11, b12, b13, b14, b15] =
   [b15 XOR (gf b0 148 XOR (gf b1 32 XOR (gf b2 133 XOR (gf b3 16 XOR (gf b4 194 XOR
     (gf b5 192 XOR (b6 XOR (gf b7 251 XOR (b8 XOR (gf b9 192 XOR (gf b10 194 XOR
     (gf b11 16 XOR (gf b12 133 XOR (gf b13 32 XOR gf b14 148)))))))))))))),
    b0, b1, b2, b3, b4, b5, b6, b7, b8, b9, b10, b11, b12, b13, b14]"
  by (simp add: spec_L_step_def spec_lin_sum_def upt_0_15 LC_def gf_Suc_0_right)

lemma spec_Linv_step_explicit:
  "spec_Linv_step [b0, b1, b2, b3, b4, b5, b6, b7, b8, b9, b10, b11, b12, b13, b14, b15] =
   [b1, b2, b3, b4, b5, b6, b7, b8, b9, b10, b11, b12, b13, b14, b15,
    b0 XOR (gf b1 148 XOR (gf b2 32 XOR (gf b3 133 XOR (gf b4 16 XOR (gf b5 194 XOR
     (gf b6 192 XOR (b7 XOR (gf b8 251 XOR (b9 XOR (gf b10 192 XOR (gf b11 194 XOR
     (gf b12 16 XOR (gf b13 133 XOR (gf b14 32 XOR gf b15 148))))))))))))))]"
  by (simp add: spec_Linv_step_def spec_lin_sum_def upt_0_15 LC_def gf_Suc_0_right)

lemma is_bytes_Cons [simp]: "is_bytes (x # xs) = (x < 256 \<and> is_bytes xs)"
  by (simp add: is_bytes_def)

lemma is_bytes_Nil [simp]: "is_bytes []"
  by (simp add: is_bytes_def)

lemma L_round_eq:
  assumes "length blk = 16" "is_bytes blk"
  shows "L_round blk = Inr (spec_L_step blk)"
proof -
  from assms(1) obtain b0 b1 b2 b3 b4 b5 b6 b7 b8 b9 b10 b11 b12 b13 b14 b15
    where blk: "blk = [b0, b1, b2, b3, b4, b5, b6, b7, b8, b9, b10, b11, b12, b13, b14, b15]"
    by (rule length_16_cases)
  have "L_round blk =
    Inr [((((((((((((((b15 XOR GF ! b14 ! 148) XOR GF ! b13 ! 32) XOR GF ! b12 ! 133) XOR
      GF ! b11 ! 16) XOR GF ! b10 ! 194) XOR GF ! b9 ! 192) XOR GF ! b8 ! 1) XOR GF ! b7 ! 251) XOR
      GF ! b6 ! 1) XOR GF ! b5 ! 192) XOR GF ! b4 ! 194) XOR GF ! b3 ! 16) XOR GF ! b2 ! 133) XOR
      GF ! b1 ! 32) XOR GF ! b0 ! 148,
      b0, b1, b2, b3, b4, b5, b6, b7, b8, b9, b10, b11, b12, b13, b14]"
    using assms(2) unfolding blk
    by (simp add: L_round_def L_body_def getitem_def setitem_def upt_0_15 GF_length GF_row_length LC_def)
  also have "\<dots> = Inr (spec_L_step blk)"
    using assms(2) unfolding blk spec_L_step_explicit
    by (simp add: GF_nth gf_Suc_0_right xor.assoc xor.commute xor.left_commute)
  finally show ?thesis .
qed

lemma Linv_round_eq:
  assumes "length blk = 16" "is_bytes blk"
  shows "Linv_round blk = Inr (spec_Linv_step blk)"
proof -
  from assms(1) obtain b0 b1 b2 b3 b4 b5 b6 b7 b8 b9 b10 b11 b12 b13 b14 b15
    where blk: "blk = [b0, b1, b2, b3, b4, b5, b6, b7, b8, b9, b10, b11, b12, b13, b14, b15]"
    by (rule length_16_cases)
  have "Linv_round blk =
    Inr [b1, b2, b3, b4, b5, b6, b7, b8, b9, b10, b11, b12, b13, b14, b15,
      ((((((((((((((b0 XOR GF ! b1 ! 148) XOR GF ! b2 ! 32) XOR GF ! b3 ! 133) XOR
      GF ! b4 ! 16) XOR GF ! b5 ! 194) XOR GF ! b6 ! 192) XOR GF ! b7 ! 1) XOR GF ! b8 ! 251) XOR
      GF ! b9 ! 1) XOR GF ! b10 ! 192) XOR GF ! b11 ! 194) XOR GF ! b12 ! 16) XOR GF ! b13 ! 133) XOR
      GF ! b14 ! 32) XOR GF ! b15 ! 148]"
    using assms(2) unfolding blk
    by (simp add: Linv_round_def Linv_body_def getitem_def setitem_def upt_0_15 GF_length GF_row_length LC_def)
  also have "\<dots> = Inr (spec_Linv_step blk)"
    using assms(2) unfolding blk spec_Linv_step_explicit
    by (simp add: GF_nth gf_Suc_0_right xor.assoc xor.commute xor.left_commute)
  finally show ?thesis .
qed

lemma is_bytes_nth: "is_bytes xs \<Longrightarrow> i < length xs \<Longrightarrow> xs ! i < 256"
  by (simp add: is_bytes_def)

lemma is_bytes_take: "is_bytes xs \<Longrightarrow> is_bytes (take n xs)"
  by (auto simp: is_bytes_def dest: in_set_takeD)

lemma is_bytes_drop: "is_bytes xs \<Longrightarrow> is_bytes (drop n xs)"
  by (auto simp: is_bytes_def dest: in_set_dropD)

lemma is_bytes_append [simp]: "is_bytes (xs @ ys) = (is_bytes xs \<and> is_bytes ys)"
  by (auto simp: is_bytes_def)

lemma is_bytes_replicate [simp]: "is_bytes (replicate n x) = (n = 0 \<or> x < 256)"
  by (auto simp: is_bytes_def)

lemma foldr_xor_byte: "is_bytes xs \<Longrightarrow> foldr (XOR) xs 0 < 256"
  by (induction xs) (simp_all add: xor_byte)

lemma spec_lin_sum_byte: "15 \<le> length st \<Longrightarrow> is_bytes st \<Longrightarrow> spec_lin_sum st < 256"
  unfolding spec_lin_sum_def
  by (rule foldr_xor_byte) (auto simp: is_bytes_def intro!: gf_less_256)

lemma spec_lin_sum_cong:
  assumes "\<And>i. i < 15 \<Longrightarrow> xs ! i = ys ! i"
  shows "spec_lin_sum xs = spec_lin_sum ys"
proof -
  have "map (\<lambda>i. gf (xs ! i) (LC ! i)) [0..<15] = map (\<lambda>i. gf (ys ! i) (LC ! i)) [0..<15]"
    by (rule map_cong) (simp_all add: assms)
  then show ?thesis unfolding spec_lin_sum_def by (rule arg_cong)
qed

lemma spec_L_step_block: "is_block st \<Longrightarrow> is_block (spec_L_step st)"
  by (simp add: is_block_def spec_L_step_def xor_byte is_bytes_nth spec_lin_sum_byte is_bytes_take)

lemma spec_Linv_step_block: "is_block st \<Longrightarrow> is_block (spec_Linv_step st)"
  by (simp add: is_block_def spec_Linv_step_def xor_byte is_bytes_nth spec_lin_sum_byte is_bytes_drop)

lemma spec_Linv_step_L_step:
  assumes "is_block st"
  shows "spec_Linv_step (spec_L_step st) = st"
proof -
  have len: "length st = 16" using assms by (simp add: is_block_def)
  have s: "spec_lin_sum (take 15 st) = spec_lin_sum st"
    by (rule spec_lin_sum_cong) simp
  have "spec_Linv_step (spec_L_step st) = take 15 st @ [(st ! 15 XOR spec_lin_sum st) XOR spec_lin_sum st]"
    by (simp add: spec_Linv_step_def spec_L_step_def s)
  also have "\<dots> = take 15 st @ [st ! 15]"
    by (simp add: xor.assoc)
  also have "\<dots> = st"
    using len by (simp add: take_Suc_conv_app_nth [of 15 st, symmetric])
  finally show ?thesis .
qed

lemma spec_L_step_Linv_step:
  assumes "is_block st"
  shows "spec_L_step (spec_Linv_step st) = st"
proof -
  have len: "length st = 16" using assms by (simp add: is_block_def)
  let ?t = "st ! 0 XOR spec_lin_sum (drop (Suc 0) st)"
  have s: "spec_lin_sum (drop (Suc 0) st @ [?t]) = spec_lin_sum (drop (Suc 0) st)"
    using len by (intro spec_lin_sum_cong) (simp add: nth_append)
  have "spec_L_step (spec_Linv_step st) = (?t XOR spec_lin_sum (drop (Suc 0) st)) # drop (Suc 0) st"
    using len by (simp add: spec_Linv_step_def spec_L_step_def s nth_append)
  also have "\<dots> = st ! 0 # drop (Suc 0) st"
    by (simp add: xor.assoc)
  also have "\<dots> = st"
    using len by (cases st) simp_all
  finally show ?thesis .
qed

lemma funpow_block:
  "(\<And>s. is_block s \<Longrightarrow> is_block (f s)) \<Longrightarrow> is_block s \<Longrightarrow> is_block ((f ^^ n) s)"
  by (induction n) simp_all

lemma funpow_inverse:
  assumes "\<And>s. is_block s \<Longrightarrow> g (f s) = s" "\<And>s. is_block s \<Longrightarrow> is_block (f s)" "is_block s"
  shows "(g ^^ n) ((f ^^ n) s) = s"
  using assms(3)
proof (induction n arbitrary: s)
  case 0
  then show ?case by simp
next
  case (Suc n)
  have "(g ^^ Suc n) ((f ^^ Suc n) s) = (g ^^ n) (g (f ((f ^^ n) s)))"
    by (simp add: funpow_swap1)
  also have "\<dots> = (g ^^ n) ((f ^^ n) s)"
    using Suc.prems by (simp add: assms(1) assms(2) funpow_block)
  also have "\<dots> = s" using Suc by simp
  finally show ?case .
qed

lemma spec_L_block: "is_block st \<Longrightarrow> is_block (spec_L st)"
  unfolding spec_L_def by (rule funpow_block) (simp_all add: spec_L_step_block)

lemma spec_Linv_block: "is_block st \<Longrightarrow> is_block (spec_Linv st)"
  unfolding spec_Linv_def by (rule funpow_block) (simp_all add: spec_Linv_step_block)

lemma spec_Linv_L: "is_block st \<Longrightarrow> spec_Linv (spec_L st) = st"
  unfolding spec_Linv_def spec_L_def
  by (rule funpow_inverse) (simp_all add: spec_Linv_step_L_step spec_L_step_block)

lemma spec_L_Linv: "is_block st \<Longrightarrow> spec_L (spec_Linv st) = st"
  unfolding spec_Linv_def spec_L_def
  by (rule funpow_inverse) (simp_all add: spec_L_step_Linv_step spec_Linv_step_block)

lemma for_loop_append:
  "for_loop (xs @ ys) body s = ebind (for_loop xs body s) (for_loop ys body)"
  by (induction xs arbitrary: s) (simp_all add: ebind_def split: sum.splits)

lemma for_loop_pure:
  assumes "\<And>i s. i \<in> set js \<Longrightarrow> P s \<Longrightarrow> body i s = Inr (g i s)"
    and "\<And>i s. i \<in> set js \<Longrightarrow> P s \<Longrightarrow> P (g i s)"
    and "P s"
  shows "for_loop js body s = Inr (fold g js s) \<and> P (fold g js s)"
  using assms
proof (induction js arbitrary: s)
  case Nil
  then show ?case by simp
next
  case (Cons j js)
  then show ?case by simp
qed

lemma fold_const_funpow: "fold (\<lambda>_. f) js s = (f ^^ length js) s"
  by (induction js arbitrary: s) (simp_all add: funpow_swap1)

lemma L_round_block: "is_block blk \<Longrightarrow> L_round blk = Inr (spec_L_step blk)"
  by (simp add: is_block_def L_round_eq)

lemma Linv_round_block: "is_block blk \<Longrightarrow> Linv_round blk = Inr (spec_Linv_step blk)"
  by (simp add: is_block_def Linv_round_eq)

lemma L_eq:
  assumes "is_block blk"
  shows "L blk n = Inr ((spec_L_step ^^ n) blk)"
proof -
  have "for_loop [0..<n] (\<lambda>_. L_round) blk = Inr (fold (\<lambda>_. spec_L_step) [0..<n] blk)
        \<and> is_block (fold (\<lambda>_. spec_L_step) [0..<n] blk)"
    using assms
    by (intro for_loop_pure [where P = is_block])
       (simp_all add: L_round_block spec_L_step_block)
  then show ?thesis by (simp add: L_def fold_const_funpow)
qed

lemma Linv_eq:
  assumes "is_block blk"
  shows "Linv blk = Inr (spec_Linv blk)"
proof -
  have "for_loop [0..<16] (\<lambda>_. Linv_round) blk = Inr (fold (\<lambda>_. spec_Linv_step) [0..<16] blk)
        \<and> is_block (fold (\<lambda>_. spec_Linv_step) [0..<16] blk)"
    using assms
    by (intro for_loop_pure [where P = is_block])
       (simp_all add: Linv_round_block spec_Linv_step_block)
  then show ?thesis by (simp add: Linv_def spec_Linv_def fold_const_funpow)
qed

section \<open>Claims about the field multiplier and its table\<close>

text \<open>
  Claim C8. The precomputed table agrees with the multiplier on every pair of bytes: for
  all \<open>x\<close>, \<open>y\<close> in \<open>0..255\<close> the lookup \<open>GF[x][y]\<close> is in range and yields
  \<open>gf(x, y)\<close>.
\<close>

theorem GF_table_agrees_with_gf:
  "x < 256 \<Longrightarrow> y < 256 \<Longrightarrow>
   ebind (getitem GF x) (\<lambda>row. getitem row y) = Inr (gf x y) \<and> GF ! x ! y = gf x y"
  by (simp add: getitem_def GF_length GF_row_length GF_nth)

theorem GF_table_agrees_with_gf_witness:
  "(3::nat) < 256 \<and> (5::nat) < 256 \<and>
   ebind (getitem GF 3) (\<lambda>row. getitem row 5) = Inr (gf 3 5) \<and> GF ! 3 ! 5 = gf 3 5"
  using GF_table_agrees_with_gf [of 3 5] by simp

text \<open>
  Claim C9. For all bytes \<open>a\<close> and \<open>b\<close>: \<open>gf(a, b) = gf(b, a)\<close>, \<open>gf(a, 0) = 0\<close> and
  \<open>gf(a, 1) = a\<close>.
\<close>

theorem gf_commutative_zero_one:
  "a < 256 \<Longrightarrow> b < 256 \<Longrightarrow> gf a b = gf b a \<and> gf a 0 = 0 \<and> gf a 1 = a"
  by (simp add: gf_commute gf_0_right gf_Suc_0_right)

theorem gf_commutative_zero_one_witness:
  "(3::nat) < 256 \<and> (7::nat) < 256 \<and> gf 3 7 = gf 7 3 \<and> gf 3 0 = 0 \<and> gf 3 1 = 3"
  using gf_commutative_zero_one [of 3 7] by simp

section \<open>Claims about the linear transform\<close>

text \<open>
  Claim C4. For every 16-byte state, \<open>Linv(L(state))\<close> and \<open>L(Linv(state))\<close> give the
  state back, where \<open>L\<close> runs its 16 iterations: neither call raises, and the bytes that
  come out are the bytes that went in.
\<close>

theorem Linv_L_mutual_inverses:
  "is_block state \<Longrightarrow>
   ebind (L state 16) Linv = Inr state \<and> ebind (Linv state) (\<lambda>b. L b 16) = Inr state"
  using spec_L_block [of state] spec_Linv_block [of state]
  by (simp add: L_eq Linv_eq spec_Linv_L spec_L_Linv flip: spec_L_def)

theorem Linv_L_mutual_inverses_witness:
  "is_block [0, 1, 2, 3, 4, 5, 6, 7, 8, 9, 10, 11, 12, 13, 14, 255] \<and>
   ebind (L [0, 1, 2, 3, 4, 5, 6, 7, 8, 9, 10, 11, 12, 13, 14, 255] 16) Linv =
     Inr [0, 1, 2, 3, 4, 5, 6, 7, 8, 9, 10, 11, 12, 13, 14, 255] \<and>
   ebind (Linv [0, 1, 2, 3, 4, 5, 6, 7, 8, 9, 10, 11, 12, 13, 14, 255]) (\<lambda>b. L b 16) =
     Inr [0, 1, 2, 3, 4, 5, 6, 7, 8, 9, 10, 11, 12, 13, 14, 255]"
  using Linv_L_mutual_inverses [of "[0, 1, 2, 3, 4, 5, 6, 7, 8, 9, 10, 11, 12, 13, 14, 255]"]
  by (simp add: is_block_def)

end
